theory Spec2Isabelle
  imports Main
begin

section \<open>The cyclic buffer of package cyclicbuffer\<close>

text \<open>
  The development embeds the Go package \<^verbatim>\<open>cyclicbuffer\<close>. The package exists in two
  files: the current one (\<^verbatim>\<open>src/unnamed/part_000\<close>), whose \<^verbatim>\<open>Append\<close> returns the
  next write position and which adds \<^verbatim>\<open>AppendSafe\<close>, \<^verbatim>\<open>GetData\<close> and the method form
  of \<^verbatim>\<open>CreateIterator\<close>, and an older one (\<^verbatim>\<open>src/cyclicbuffer.go\<close>), whose \<^verbatim>\<open>Append\<close>
  returns nothing. The bodies of all other functions are the same in both files.

  Go's \<^verbatim>\<open>int\<close> is modelled by \<^typ>\<open>int\<close>. The arithmetic of the package is
  \<^verbatim>\<open>index++\<close>, always on a cursor that has just indexed the slice, so that the result
  is at most the length of the slice, and \<^verbatim>\<open>count--\<close> on the iterator, which would
  leave the 64-bit range only after \<open>2 ^ 63\<close> calls of \<^verbatim>\<open>Value\<close> past the end. An
  \<^verbatim>\<open>interface{}\<close> value is an \<^typ>\<open>'a option\<close>, with \<^term>\<open>None\<close> for \<^verbatim>\<open>nil\<close>, which is
  what \<^verbatim>\<open>make\<close> fills a fresh slice with. The length up to which \<^verbatim>\<open>make\<close> allocates
  is a parameter of \<^verbatim>\<open>New\<close>.
\<close>

subsection \<open>Failures\<close>

text \<open>
  The run-time panics the package can raise: an index outside a slice, \<^verbatim>\<open>make\<close> with a
  negative length or a negative capacity, and \<^verbatim>\<open>Unlock\<close> of a mutex that is not locked.
\<close>

datatype panic =
    IndexOutOfRange
  | MakeSliceLenOutOfRange
  | MakeSliceCapOutOfRange
  | UnlockOfUnlockedMutex

text \<open>
  A method that takes the mutex and writes through its receiver has three outcomes, each
  with the buffer it leaves behind: it returns a value, it panics (its deferred
  \<^verbatim>\<open>Unlock\<close> has run), or it is parked in \<^verbatim>\<open>Lock()\<close> on a mutex that is held. The
  embedding is sequential, so a parked call never resumes: nobody else is there to
  release the mutex.
\<close>

datatype ('r, 's) outcome =
    Returns 'r 's
  | Panics panic 's
  | Blocks 's

fun state_of :: "('r, 's) outcome \<Rightarrow> 's" where
  "state_of (Returns r s) = s"
| "state_of (Panics p s) = s"
| "state_of (Blocks s) = s"

subsection \<open>The buffer\<close>

text \<open>
  \<^verbatim>\<open>type CyclicBuffer struct { data []interface{}; full bool; size int; index int;
  mutex *sync.Mutex }\<close>. The field \<open>cb_mutex\<close> is the state of the mutex: \<^term>\<open>True\<close>
  while it is locked.
\<close>

record 'a CyclicBuffer =
  cb_data :: "'a option list"
  cb_full :: bool
  cb_size :: int
  cb_index :: int
  cb_mutex :: bool

definition NotEmpty :: "'a CyclicBuffer \<Rightarrow> bool" where
  "NotEmpty cb = (cb_full cb \<or> cb_index cb > 0)"

definition Empty :: "'a CyclicBuffer \<Rightarrow> bool" where
  "Empty cb = (\<not> NotEmpty cb)"

text \<open>
  \<^verbatim>\<open>New\<close> (part_000, lines 29 to 37) has no check of its own and no error result. Its
  \<^verbatim>\<open>make([]interface{}, size)\<close> panics (\<^verbatim>\<open>makeslice: len out of range\<close>) on a negative
  \<^verbatim>\<open>size\<close> and on a \<^verbatim>\<open>size\<close> whose slots would take more memory than the Go runtime
  allocates. That bound is the runtime's, not the package's, so it is a parameter here:
  \<open>max_len\<close> is the greatest length for which \<^verbatim>\<open>make\<close> allocates a slice of
  \<^verbatim>\<open>interface{}\<close> values (at most \<open>2 ^ 44\<close> on amd64: \<open>2 ^ 48\<close> bytes at 16 bytes a
  value). A length of 0 is always granted.
\<close>

definition New :: "nat \<Rightarrow> int \<Rightarrow> panic + 'a CyclicBuffer" where
  "New max_len sz =
     (if sz < 0 \<or> int max_len < sz then Inl MakeSliceLenOutOfRange
      else Inr \<lparr>cb_data = replicate (nat sz) None, cb_full = False, cb_size = sz,
                cb_index = 0, cb_mutex = False\<rparr>)"

text \<open>
  \<^verbatim>\<open>Append\<close> (part_000, lines 41 to 53). The write \<^verbatim>\<open>cb.data[index] = d\<close> panics when
  the cursor is outside the slice; the deferred \<^verbatim>\<open>Unlock\<close> runs on every exit after
  the \<^verbatim>\<open>Lock\<close>.
\<close>

definition Append :: "'a CyclicBuffer \<Rightarrow> 'a option \<Rightarrow> (int, 'a CyclicBuffer) outcome" where
  "Append cb d =
     (if cb_mutex cb then Blocks cb
      else
        let cb1 = cb\<lparr>cb_mutex := True\<rparr>;
            index = cb_index cb1
        in
          if index < 0 \<or> int (length (cb_data cb1)) \<le> index
          then Panics IndexOutOfRange (cb1\<lparr>cb_mutex := False\<rparr>)
          else
            let cb2 = cb1\<lparr>cb_data := (cb_data cb1)[nat index := d]\<rparr>;
                index1 = index + 1
            in
              if index1 \<ge> cb_size cb2
              then Returns 0 (cb2\<lparr>cb_full := True, cb_index := 0, cb_mutex := False\<rparr>)
              else Returns index1 (cb2\<lparr>cb_index := index1, cb_mutex := False\<rparr>))"

text \<open>
  \<^verbatim>\<open>Append\<close> of the older file (cyclicbuffer.go, lines 35 to 46): the same body without
  a result.
\<close>

definition Append_legacy :: "'a CyclicBuffer \<Rightarrow> 'a option \<Rightarrow> (unit, 'a CyclicBuffer) outcome" where
  "Append_legacy cb d =
     (if cb_mutex cb then Blocks cb
      else
        let cb1 = cb\<lparr>cb_mutex := True\<rparr>;
            index = cb_index cb1
        in
          if index < 0 \<or> int (length (cb_data cb1)) \<le> index
          then Panics IndexOutOfRange (cb1\<lparr>cb_mutex := False\<rparr>)
          else
            let cb2 = cb1\<lparr>cb_data := (cb_data cb1)[nat index := d]\<rparr>;
                index1 = index + 1
            in
              if index1 \<ge> cb_size cb2
              then Returns () (cb2\<lparr>cb_full := True, cb_index := 0, cb_mutex := False\<rparr>)
              else Returns () (cb2\<lparr>cb_index := index1, cb_mutex := False\<rparr>))"

text \<open>
  The deferred \<^verbatim>\<open>cb.mutex.Unlock()\<close> of a caller that holds the mutex around a call:
  it releases the mutex, and is a fatal error when the mutex is not locked.
\<close>

fun deferred_Unlock :: "('r, 'a CyclicBuffer) outcome \<Rightarrow> ('r, 'a CyclicBuffer) outcome" where
  "deferred_Unlock (Returns r s) =
     (if cb_mutex s then Returns r (s\<lparr>cb_mutex := False\<rparr>) else Panics UnlockOfUnlockedMutex s)"
| "deferred_Unlock (Panics p s) =
     (if cb_mutex s then Panics p (s\<lparr>cb_mutex := False\<rparr>) else Panics UnlockOfUnlockedMutex s)"
| "deferred_Unlock (Blocks s) = Blocks s"

text \<open>
  \<^verbatim>\<open>AppendSafe\<close> (part_000, lines 56 to 60) takes the mutex and, holding it, calls
  \<^verbatim>\<open>Append\<close>, which takes the same mutex again.
\<close>

definition AppendSafe :: "'a CyclicBuffer \<Rightarrow> 'a option \<Rightarrow> (int, 'a CyclicBuffer) outcome" where
  "AppendSafe cb d =
     (if cb_mutex cb then Blocks cb
      else deferred_Unlock (Append (cb\<lparr>cb_mutex := True\<rparr>) d))"

text \<open>\<^verbatim>\<open>GetData\<close> hands out the slice itself.\<close>

definition GetData :: "'a CyclicBuffer \<Rightarrow> 'a option list" where
  "GetData cb = cb_data cb"

subsection \<open>The iterator\<close>

text \<open>
  \<^verbatim>\<open>type Iterator struct { index int; count int; cb *CyclicBuffer }\<close>. The pointer
  \<^verbatim>\<open>cb\<close> is the buffer the iterator reads at each call, so the buffer is an argument of
  \<^verbatim>\<open>Value\<close> here.
\<close>

record Iterator =
  it_index :: int
  it_count :: int

definition CreateIterator :: "'a CyclicBuffer \<Rightarrow> Iterator" where
  "CreateIterator cb =
     (if cb_full cb
      then \<lparr>it_index = cb_index cb, it_count = cb_size cb\<rparr>
      else \<lparr>it_index = 0, it_count = cb_index cb\<rparr>)"

text \<open>
  \<^verbatim>\<open>Value\<close> (part_000, lines 91 to 99) never looks at \<^verbatim>\<open>count\<close> before it reads the
  slot; the read panics only when the cursor is outside the slice.
\<close>

definition Value :: "'a CyclicBuffer \<Rightarrow> Iterator \<Rightarrow> panic + ('a option \<times> Iterator)" where
  "Value cb it =
     (if it_index it < 0 \<or> int (length (cb_data cb)) \<le> it_index it
      then Inl IndexOutOfRange
      else
        let v = cb_data cb ! nat (it_index it);
            index1 = it_index it + 1;
            index2 = (if index1 \<ge> cb_size cb then 0 else index1)
        in Inr (v, \<lparr>it_index = index2, it_count = it_count it - 1\<rparr>))"

definition Next :: "Iterator \<Rightarrow> bool" where
  "Next it = (it_count it > 0)"

text \<open>
  The loop a caller writes over an iterator,
  \<^verbatim>\<open>for it.Next() { res = append(res, it.Value()) }\<close>, with no \<^verbatim>\<open>Append\<close> in between.
\<close>

function drain :: "'a CyclicBuffer \<Rightarrow> Iterator \<Rightarrow> 'a option list
    \<Rightarrow> panic + ('a option list \<times> Iterator)" where
  "drain cb it acc =
     (if Next it
      then (case Value cb it of
              Inl p \<Rightarrow> Inl p
            | Inr (v, it') \<Rightarrow> drain cb it' (acc @ [v]))
      else Inr (acc, it))"
  by pat_completeness auto
termination
  by (relation "measure (\<lambda>(cb, it, acc). nat (it_count it))")
     (auto simp: Next_def Value_def Let_def split: if_splits)

declare drain.simps [simp del]

subsection \<open>Get\<close>

text \<open>
  \<^verbatim>\<open>Get\<close> (part_000, lines 108 to 128) in three parts: the choice of the first index
  and the count, one pass of the loop body, and the loop. It takes no lock.
  \<^verbatim>\<open>make([]interface{}, 0, count)\<close> panics on a negative \<^verbatim>\<open>count\<close>; its upper bound
  is never met where \<^verbatim>\<open>count\<close> is at most the length of \<^verbatim>\<open>data\<close>, a slice that
  \<^verbatim>\<open>make\<close> has allocated.
\<close>

definition Get_start :: "'a CyclicBuffer \<Rightarrow> int \<times> int" where
  "Get_start cb =
     (if cb_full cb then (cb_index cb, cb_size cb) else (0, cb_index cb))"

definition Get_body :: "'a CyclicBuffer \<Rightarrow> int \<Rightarrow> 'a option list
    \<Rightarrow> panic + (int \<times> 'a option list)" where
  "Get_body cb index res =
     (if index < 0 \<or> int (length (cb_data cb)) \<le> index
      then Inl IndexOutOfRange
      else
        let d = cb_data cb ! nat index;
            res1 = res @ [d];
            index1 = index + 1
        in Inr (if index1 \<ge> cb_size cb then 0 else index1, res1))"

function Get_loop :: "'a CyclicBuffer \<Rightarrow> int \<Rightarrow> int \<Rightarrow> int \<Rightarrow> 'a option list
    \<Rightarrow> panic + 'a option list" where
  "Get_loop cb i count index res =
     (if i < count
      then (case Get_body cb index res of
              Inl p \<Rightarrow> Inl p
            | Inr (index1, res1) \<Rightarrow> Get_loop cb (i + 1) count index1 res1)
      else Inr res)"
  by pat_completeness auto
termination
  by (relation "measure (\<lambda>(cb, i, count, index, res). nat (count - i))") auto

declare Get_loop.simps [simp del]

definition Get :: "'a CyclicBuffer \<Rightarrow> panic + 'a option list" where
  "Get cb =
     (case Get_start cb of
        (index, count) \<Rightarrow>
          if count < 0 then Inl MakeSliceCapOutOfRange
          else Get_loop cb 0 count index [])"

subsection \<open>Get running beside writers\<close>

text \<open>
  \<^verbatim>\<open>Get\<close> holds no lock, so another goroutine's \<^verbatim>\<open>Append\<close> finds the mutex free
  and can run between any two passes of the loop of \<^verbatim>\<open>Get\<close>. A schedule lists, in
  order, what happens after \<^verbatim>\<open>Get\<close> has chosen its first index and count: one pass
  of the reader's loop, or a whole \<^verbatim>\<open>Append\<close> of a writer. When the schedule is used
  up the reader finishes alone. A writer's panic ends the program.
\<close>

datatype 'a sched_step = Reader_pass | Writer_Append "'a option"

fun Get_scheduled :: "'a CyclicBuffer \<Rightarrow> int \<Rightarrow> int \<Rightarrow> int \<Rightarrow> 'a option list
    \<Rightarrow> 'a sched_step list \<Rightarrow> panic + 'a option list" where
  "Get_scheduled cb i count index res [] = Get_loop cb i count index res"
| "Get_scheduled cb i count index res (Writer_Append d # sched) =
     (case Append cb d of
        Returns r cb' \<Rightarrow> Get_scheduled cb' i count index res sched
      | Panics p s \<Rightarrow> Inl p
      | Blocks s \<Rightarrow> Get_scheduled s i count index res sched)"
| "Get_scheduled cb i count index res (Reader_pass # sched) =
     (if i < count
      then (case Get_body cb index res of
              Inl p \<Rightarrow> Inl p
            | Inr (index1, res1) \<Rightarrow> Get_scheduled cb (i + 1) count index1 res1 sched)
      else Inr res)"

definition Get_interleaved :: "'a CyclicBuffer \<Rightarrow> 'a sched_step list
    \<Rightarrow> panic + 'a option list" where
  "Get_interleaved cb sched =
     (case Get_start cb of
        (index, count) \<Rightarrow>
          if count < 0 then Inl MakeSliceCapOutOfRange
          else Get_scheduled cb 0 count index [] sched)"

subsection \<open>Sequences of calls\<close>

text \<open>
  The appends of a list of values, one after the other, stopping at the first call that
  does not return.
\<close>

fun append_all :: "'a CyclicBuffer \<Rightarrow> 'a option list \<Rightarrow> (unit, 'a CyclicBuffer) outcome" where
  "append_all cb [] = Returns () cb"
| "append_all cb (d # ds) =
     (case Append cb d of
        Returns r cb' \<Rightarrow> append_all cb' ds
      | Panics p s \<Rightarrow> Panics p s
      | Blocks s \<Rightarrow> Blocks s)"

text \<open>
  The buffer reached by \<^verbatim>\<open>New(c)\<close> followed by the appends of \<open>ds\<close>, when every call
  returns; \<open>max_len\<close> is the bound of \<^verbatim>\<open>New\<close>.
\<close>

definition history :: "nat \<Rightarrow> int \<Rightarrow> 'a option list \<Rightarrow> 'a CyclicBuffer option" where
  "history max_len c ds =
     (case New max_len c of
        Inl p \<Rightarrow> None
      | Inr cb \<Rightarrow>
          (case append_all cb ds of
             Returns u cb' \<Rightarrow> Some cb'
           | Panics p s \<Rightarrow> None
           | Blocks s \<Rightarrow> None))"

text \<open>
  The calls of the public interface on a buffer, and the buffer each leaves behind,
  whatever its outcome. \<^verbatim>\<open>Get\<close>, \<^verbatim>\<open>CreateIterator\<close>, \<^verbatim>\<open>Empty\<close>, \<^verbatim>\<open>NotEmpty\<close> and
  \<^verbatim>\<open>GetData\<close> assign to no field of the buffer.
\<close>

datatype 'a call =
    Call_Append "'a option"
  | Call_Append_legacy "'a option"
  | Call_AppendSafe "'a option"
  | Call_Get
  | Call_CreateIterator
  | Call_Empty
  | Call_NotEmpty
  | Call_GetData

fun after_call :: "'a CyclicBuffer \<Rightarrow> 'a call \<Rightarrow> 'a CyclicBuffer" where
  "after_call cb (Call_Append d) = state_of (Append cb d)"
| "after_call cb (Call_Append_legacy d) = state_of (Append_legacy cb d)"
| "after_call cb (Call_AppendSafe d) = state_of (AppendSafe cb d)"
| "after_call cb Call_Get = cb"
| "after_call cb Call_CreateIterator = cb"
| "after_call cb Call_Empty = cb"
| "after_call cb Call_NotEmpty = cb"
| "after_call cb Call_GetData = cb"

subsection \<open>Invariant and logical content\<close>

text \<open>
  The state a buffer of capacity at least one is in between calls: as many slots as
  \<^verbatim>\<open>size\<close> says, and the write cursor inside them.
\<close>

definition consistent :: "'a CyclicBuffer \<Rightarrow> bool" where
  "consistent cb =
     (1 \<le> cb_size cb \<and> int (length (cb_data cb)) = cb_size cb \<and>
      0 \<le> cb_index cb \<and> cb_index cb < cb_size cb)"

text \<open>
  The live entries, oldest first: the slots from the write cursor round to the slot
  before it once the buffer is full, the slots below the write cursor before that.
\<close>

definition logical :: "'a CyclicBuffer \<Rightarrow> 'a option list" where
  "logical cb =
     (if cb_full cb
      then drop (nat (cb_index cb)) (cb_data cb) @ take (nat (cb_index cb)) (cb_data cb)
      else take (nat (cb_index cb)) (cb_data cb))"

section \<open>Lists read round the end\<close>

lemma rot_step_full:
  assumes "i < length xs"
  shows "drop (Suc i mod length xs) (xs[i := d]) @ take (Suc i mod length xs) (xs[i := d])
         = tl (drop i xs @ take i xs) @ [d]"
proof (cases "Suc i < length xs")
  case True
  then have m: "Suc i mod length xs = Suc i" by simp
  from assms have "drop i xs = xs ! i # drop (Suc i) xs" by (simp add: Cons_nth_drop_Suc)
  moreover have "take (Suc i) (xs[i := d]) = take i xs @ [d]"
    using assms by (simp add: take_Suc_conv_app_nth)
  ultimately show ?thesis using m by simp
next
  case False
  with assms have e: "Suc i = length xs" by simp
  then have m: "Suc i mod length xs = 0" by simp
  from assms have "drop i xs = xs ! i # drop (Suc i) xs" by (simp add: Cons_nth_drop_Suc)
  moreover have "xs[i := d] = take i xs @ [d]"
    using assms e by (simp add: upd_conv_take_nth_drop)
  ultimately show ?thesis using m e by simp
qed

lemma rot_step_fresh:
  assumes "i < length xs"
  shows "(if Suc i = length xs then xs[i := d] else take (Suc i) (xs[i := d])) = take i xs @ [d]"
  using assms by (simp add: upd_conv_take_nth_drop take_Suc_conv_app_nth)

lemma take_rot_step:
  assumes "i < length xs" "Suc k \<le> length xs"
  shows "take (Suc k) (drop i xs @ take i xs)
         = xs ! i # take k (drop (Suc i mod length xs) xs @ take (Suc i mod length xs) xs)"
proof (cases "Suc i < length xs")
  case True
  then have m: "Suc i mod length xs = Suc i" by simp
  from assms have d: "drop i xs = xs ! i # drop (Suc i) xs" by (simp add: Cons_nth_drop_Suc)
  have t: "take (Suc i) xs = take i xs @ [xs ! i]"
    using assms by (simp add: take_Suc_conv_app_nth)
  have "k \<le> length (drop (Suc i) xs @ take i xs)" using assms True by simp
  then have "take k (drop (Suc i) xs @ take i xs @ [xs ! i]) = take k (drop (Suc i) xs @ take i xs)"
    by (metis append.assoc append_Nil2 diff_is_0_eq take_0 take_append)
  then show ?thesis using m d t by simp
next
  case False
  with assms have e: "Suc i = length xs" by simp
  then have m: "Suc i mod length xs = 0" by simp
  from assms have d: "drop i xs = xs ! i # drop (Suc i) xs" by (simp add: Cons_nth_drop_Suc)
  have "take k (take i xs) = take k xs" using assms e by (simp add: min_def)
  then show ?thesis using m d e by simp
qed

section \<open>The calls on a consistent buffer\<close>

lemma Append_consistent:
  assumes "consistent cb" "\<not> cb_mutex cb"
  shows "Append cb d = Returns ((cb_index cb + 1) mod cb_size cb)
           (cb\<lparr>cb_data := (cb_data cb)[nat (cb_index cb) := d],
               cb_full := (cb_full cb \<or> (cb_index cb + 1) mod cb_size cb = 0),
               cb_index := (cb_index cb + 1) mod cb_size cb\<rparr>)"
proof (cases "cb_index cb + 1 \<ge> cb_size cb")
  case True
  with assms have e: "cb_index cb + 1 = cb_size cb" by (simp add: consistent_def)
  then have "(cb_index cb + 1) mod cb_size cb = 0" by simp
  with assms e show ?thesis by (simp add: Append_def consistent_def Let_def)
next
  case False
  with assms have "(cb_index cb + 1) mod cb_size cb = cb_index cb + 1"
    by (simp add: consistent_def)
  with assms False show ?thesis
    by (cases "cb_full cb") (auto simp add: Append_def consistent_def Let_def)
qed

lemma Append_legacy_consistent:
  assumes "consistent cb" "\<not> cb_mutex cb"
  shows "Append_legacy cb d = Returns ()
           (cb\<lparr>cb_data := (cb_data cb)[nat (cb_index cb) := d],
               cb_full := (cb_full cb \<or> (cb_index cb + 1) mod cb_size cb = 0),
               cb_index := (cb_index cb + 1) mod cb_size cb\<rparr>)"
proof (cases "cb_index cb + 1 \<ge> cb_size cb")
  case True
  with assms have e: "cb_index cb + 1 = cb_size cb" by (simp add: consistent_def)
  then have "(cb_index cb + 1) mod cb_size cb = 0" by simp
  with assms e show ?thesis by (simp add: Append_legacy_def consistent_def Let_def)
next
  case False
  with assms have "(cb_index cb + 1) mod cb_size cb = cb_index cb + 1"
    by (simp add: consistent_def)
  with assms False show ?thesis
    by (cases "cb_full cb") (auto simp add: Append_legacy_def consistent_def Let_def)
qed

lemma next_index:
  assumes "consistent cb" "0 \<le> j" "j < cb_size cb"
  shows "nat (if j + 1 \<ge> cb_size cb then 0 else j + 1) = Suc (nat j) mod length (cb_data cb)"
    and "0 \<le> (if j + 1 \<ge> cb_size cb then 0 else j + 1)"
    and "(if j + 1 \<ge> cb_size cb then 0 else j + 1) < cb_size cb"
    and "nat j < length (cb_data cb)"
proof -
  from assms have l: "int (length (cb_data cb)) = cb_size cb" by (simp add: consistent_def)
  show "nat j < length (cb_data cb)" using assms l by linarith
  show "0 \<le> (if j + 1 \<ge> cb_size cb then 0 else j + 1)" using assms by simp
  show "(if j + 1 \<ge> cb_size cb then 0 else j + 1) < cb_size cb" using assms by simp
  show "nat (if j + 1 \<ge> cb_size cb then 0 else j + 1) = Suc (nat j) mod length (cb_data cb)"
  proof (cases "j + 1 \<ge> cb_size cb")
    case True
    with assms l have "Suc (nat j) = length (cb_data cb)" by linarith
    with True show ?thesis by simp
  next
    case False
    with assms l have "Suc (nat j) < length (cb_data cb)" by linarith
    with False assms show ?thesis by (simp add: nat_add_distrib)
  qed
qed

lemma Get_loop_reads:
  assumes "consistent cb" "0 \<le> index" "index < cb_size cb" "k \<le> length (cb_data cb)"
    "count - i = int k"
  shows "Get_loop cb i count index res
         = Inr (res @ take k (drop (nat index) (cb_data cb) @ take (nat index) (cb_data cb)))"
  using assms
proof (induction k arbitrary: i index res)
  case 0
  then show ?case by (simp add: Get_loop.simps [of cb i])
next
  case (Suc k)
  let ?j = "if index + 1 \<ge> cb_size cb then 0 else index + 1"
  note ni = next_index [OF Suc.prems(1) Suc.prems(2) Suc.prems(3)]
  have b: "Get_body cb index res = Inr (?j, res @ [cb_data cb ! nat index])"
    using Suc.prems ni(4) by (simp add: Get_body_def Let_def)
  have "Get_loop cb (i + 1) count ?j (res @ [cb_data cb ! nat index])
        = Inr ((res @ [cb_data cb ! nat index])
               @ take k (drop (nat ?j) (cb_data cb) @ take (nat ?j) (cb_data cb)))"
    using Suc.prems ni(2,3) by (intro Suc.IH) simp_all
  moreover have "i < count" using Suc.prems by simp
  moreover note take_rot_step [OF ni(4) Suc.prems(4)]
  ultimately show ?case using b ni(1) by (simp add: Get_loop.simps [of cb i])
qed

lemma drain_reads:
  assumes "consistent cb" "0 \<le> it_index it" "it_index it < cb_size cb"
    "k \<le> length (cb_data cb)" "it_count it = int k"
  shows "\<exists>it'. drain cb it acc
         = Inr (acc @ take k (drop (nat (it_index it)) (cb_data cb)
                              @ take (nat (it_index it)) (cb_data cb)), it')
         \<and> it_count it' = 0"
  using assms
proof (induction k arbitrary: it acc)
  case 0
  then show ?case by (simp add: Next_def drain.simps [of cb it])
next
  case (Suc k)
  let ?j = "if it_index it + 1 \<ge> cb_size cb then 0 else it_index it + 1"
  let ?it = "\<lparr>it_index = ?j, it_count = it_count it - 1\<rparr>"
  note ni = next_index [OF Suc.prems(1) Suc.prems(2) Suc.prems(3)]
  have v: "Value cb it = Inr (cb_data cb ! nat (it_index it), ?it)"
    using Suc.prems ni(4) by (simp add: Value_def Let_def)
  have "\<exists>it'. drain cb ?it (acc @ [cb_data cb ! nat (it_index it)])
        = Inr ((acc @ [cb_data cb ! nat (it_index it)])
               @ take k (drop (nat (it_index ?it)) (cb_data cb)
                         @ take (nat (it_index ?it)) (cb_data cb)), it')
        \<and> it_count it' = 0"
    using Suc.prems ni(2,3) by (intro Suc.IH) simp_all
  moreover have "Next it" using Suc.prems by (simp add: Next_def)
  moreover note take_rot_step [OF ni(4) Suc.prems(4)]
  ultimately show ?case using v ni(1)
    by (simp add: drain.simps [of cb it])
qed

lemma Get_logical:
  assumes "consistent cb"
  shows "Get cb = Inr (logical cb)"
proof (cases "cb_full cb")
  case True
  have "Get_loop cb 0 (cb_size cb) (cb_index cb) []
        = Inr ([] @ take (length (cb_data cb))
                 (drop (nat (cb_index cb)) (cb_data cb) @ take (nat (cb_index cb)) (cb_data cb)))"
    using assms by (intro Get_loop_reads) (simp_all add: consistent_def)
  moreover have "nat (cb_index cb) \<le> length (cb_data cb)"
    using assms unfolding consistent_def by linarith
  ultimately show ?thesis using True assms
    by (simp add: Get_def Get_start_def logical_def consistent_def)
next
  case False
  have "Get_loop cb 0 (cb_index cb) 0 []
        = Inr ([] @ take (nat (cb_index cb))
                 (drop (nat 0) (cb_data cb) @ take (nat 0) (cb_data cb)))"
    using assms by (intro Get_loop_reads) (auto simp add: consistent_def)
  with False assms show ?thesis
    by (simp add: Get_def Get_start_def logical_def consistent_def)
qed

lemma drain_logical:
  assumes "consistent cb"
  shows "\<exists>it'. drain cb (CreateIterator cb) [] = Inr (logical cb, it') \<and> it_count it' = 0"
proof (cases "cb_full cb")
  case True
  let ?it = "\<lparr>it_index = cb_index cb, it_count = cb_size cb\<rparr>"
  have "\<exists>it'. drain cb ?it []
        = Inr ([] @ take (length (cb_data cb))
                 (drop (nat (it_index ?it)) (cb_data cb) @ take (nat (it_index ?it)) (cb_data cb)), it')
          \<and> it_count it' = 0"
    using assms by (intro drain_reads) (simp_all add: consistent_def)
  moreover have "nat (cb_index cb) \<le> length (cb_data cb)"
    using assms unfolding consistent_def by linarith
  ultimately show ?thesis using True assms
    by (simp add: CreateIterator_def logical_def consistent_def)
next
  case False
  let ?it = "\<lparr>it_index = 0, it_count = cb_index cb\<rparr>"
  have "\<exists>it'. drain cb ?it []
        = Inr ([] @ take (nat (cb_index cb))
                 (drop (nat (it_index ?it)) (cb_data cb) @ take (nat (it_index ?it)) (cb_data cb)), it')
          \<and> it_count it' = 0"
    using assms by (intro drain_reads) (auto simp add: consistent_def)
  with False assms show ?thesis
    by (simp add: CreateIterator_def logical_def consistent_def)
qed

lemma append_all_snoc:
  "append_all cb (ds @ [d]) =
     (case append_all cb ds of
        Returns u cb' \<Rightarrow>
          (case Append cb' d of
             Returns r cb'' \<Rightarrow> Returns () cb''
           | Panics p s \<Rightarrow> Panics p s
           | Blocks s \<Rightarrow> Blocks s)
      | Panics p s \<Rightarrow> Panics p s
      | Blocks s \<Rightarrow> Blocks s)"
  by (induction ds arbitrary: cb) (auto split: outcome.splits)

lemma history_snoc:
  "history lim c (ds @ [d]) =
     (case history lim c ds of
        None \<Rightarrow> None
      | Some cb \<Rightarrow>
          (case Append cb d of Returns r cb' \<Rightarrow> Some cb' | Panics p s \<Rightarrow> None | Blocks s \<Rightarrow> None))"
  by (simp add: history_def append_all_snoc split: sum.splits outcome.splits)

lemma history_Nil:
  "0 \<le> c \<Longrightarrow> c \<le> int lim \<Longrightarrow> history lim c [] =
     Some \<lparr>cb_data = replicate (nat c) None, cb_full = False, cb_size = c,
           cb_index = 0, cb_mutex = False\<rparr>"
  by (simp add: history_def New_def)

lemma New_returns_within:
  assumes "New lim c = Inr cb"
  shows "0 \<le> c \<and> c \<le> int lim"
  using assms by (auto simp add: New_def split: if_splits)

lemma history_within:
  assumes "history lim c ds = Some cb"
  shows "0 \<le> c \<and> c \<le> int lim"
  using assms by (auto simp add: history_def New_def split: if_splits)

lemma logical_Append:
  assumes "consistent cb"
  shows "logical (cb\<lparr>cb_data := (cb_data cb)[nat (cb_index cb) := d],
               cb_full := (cb_full cb \<or> (cb_index cb + 1) mod cb_size cb = 0),
               cb_index := (cb_index cb + 1) mod cb_size cb\<rparr>)
         = (if cb_full cb then tl (logical cb) @ [d] else logical cb @ [d])"
proof -
  let ?xs = "cb_data cb" and ?i = "nat (cb_index cb)"
  from assms have l: "int (length ?xs) = cb_size cb" and i: "?i < length ?xs"
    and i0: "0 \<le> cb_index cb"
    unfolding consistent_def by linarith+
  have m: "nat ((cb_index cb + 1) mod cb_size cb) = Suc ?i mod length ?xs"
  proof -
    have "cb_index cb + 1 = int (Suc ?i)" using i0 by simp
    then have "(cb_index cb + 1) mod cb_size cb = int (Suc ?i mod length ?xs)"
      using l by (simp only: zmod_int)
    then show ?thesis by simp
  qed
  have z: "((cb_index cb + 1) mod cb_size cb = 0) = (Suc ?i = length ?xs)"
  proof -
    have "((cb_index cb + 1) mod cb_size cb = 0) = (Suc ?i mod length ?xs = 0)"
      using m i0 l by (metis Euclidean_Rings.pos_mod_sign int_nat_eq nat_0 of_nat_0_less_iff
          i length_greater_0_conv list.size(3) not_less_zero nat_int of_nat_0)
    also have "\<dots> = (Suc ?i = length ?xs)" using i
      by (metis Suc_lessI mod_less mod_self nat.distinct(1))
    finally show ?thesis .
  qed
  show ?thesis
  proof (cases "cb_full cb")
    case True
    then show ?thesis using rot_step_full [OF i, of d] m by (simp add: logical_def)
  next
    case False
    then show ?thesis using rot_step_fresh [OF i, of d] m z i
      by (auto simp add: logical_def)
  qed
qed

lemma consistent_Append:
  assumes "consistent cb"
  shows "consistent (cb\<lparr>cb_data := (cb_data cb)[nat (cb_index cb) := d],
               cb_full := f,
               cb_index := (cb_index cb + 1) mod cb_size cb\<rparr>)"
  using assms by (simp add: consistent_def)

lemma history_state:
  assumes "1 \<le> c" "c \<le> int lim"
  shows "\<exists>cb. history lim c ds = Some cb \<and> consistent cb \<and> \<not> cb_mutex cb \<and> cb_size cb = c \<and>
           cb_index cb = int (length ds) mod c \<and> cb_full cb = (c \<le> int (length ds)) \<and>
           logical cb = drop (length ds - nat c) ds"
proof (induction ds rule: rev_induct)
  case Nil
  with assms show ?case by (simp add: history_Nil consistent_def logical_def)
next
  case (snoc d ds)
  then obtain cb where h: "history lim c ds = Some cb" and c: "consistent cb" and u: "\<not> cb_mutex cb"
    and s: "cb_size cb = c" and i: "cb_index cb = int (length ds) mod c"
    and f: "cb_full cb = (c \<le> int (length ds))"
    and l: "logical cb = drop (length ds - nat c) ds"
    by blast
  let ?cb = "cb\<lparr>cb_data := (cb_data cb)[nat (cb_index cb) := d],
               cb_full := (cb_full cb \<or> (cb_index cb + 1) mod cb_size cb = 0),
               cb_index := (cb_index cb + 1) mod cb_size cb\<rparr>"
  have a: "Append cb d = Returns ((cb_index cb + 1) mod cb_size cb) ?cb"
    by (rule Append_consistent [OF c u])
  have h': "history lim c (ds @ [d]) = Some ?cb" using h a by (simp add: history_snoc)
  have c': "consistent ?cb" by (rule consistent_Append [OF c])
  have i': "cb_index ?cb = int (length (ds @ [d])) mod c"
    using i s by (simp add: add.commute mod_add_right_eq)
  have f': "cb_full ?cb = (c \<le> int (length (ds @ [d])))"
  proof (cases "c \<le> int (length ds)")
    case True
    then show ?thesis using f by simp
  next
    case False
    then have n: "cb_index cb = int (length ds)" using i by simp
    show ?thesis
    proof (cases "int (length ds) + 1 = c")
      case True
      then show ?thesis using n s by simp
    next
      case False
      with \<open>\<not> c \<le> int (length ds)\<close> have "int (length ds) + 1 < c" by simp
      then have "(int (length ds) + 1) mod c = int (length ds) + 1" by simp
      then show ?thesis using n s f \<open>int (length ds) + 1 < c\<close> by simp
    qed
  qed
  have l': "logical ?cb = drop (length (ds @ [d]) - nat c) (ds @ [d])"
  proof (cases "c \<le> int (length ds)")
    case True
    define k where "k = length ds - nat c"
    have e: "length (ds @ [d]) - nat c = Suc k" and b: "Suc k \<le> length ds"
      using True assms unfolding k_def by simp_all
    have "logical ?cb = tl (drop k ds) @ [d]"
      using True f l logical_Append [OF c, of d] by (simp add: k_def)
    also have "tl (drop k ds) = drop (Suc k) ds" by (simp add: drop_Suc tl_drop)
    also have "drop (Suc k) ds @ [d] = drop (Suc k) (ds @ [d])" using b by simp
    finally show ?thesis using e by simp
  next
    case False
    then have "Suc (length ds) - nat c = 0" "length ds - nat c = 0" by linarith+
    then show ?thesis using False f l logical_Append [OF c, of d] by simp
  qed
  show ?case using h' c' u s i' f' l' by (intro exI [of _ ?cb]) simp
qed

section \<open>Sequences of calls keep the invariant\<close>

lemma AppendSafe_parks: "AppendSafe cb d = Blocks (cb\<lparr>cb_mutex := True\<rparr>)"
  by (simp add: AppendSafe_def Append_def)

lemma after_call_size: "cb_size (after_call cb call) = cb_size cb"
  by (cases call) (simp_all add: Append_def Append_legacy_def AppendSafe_parks Let_def)

lemma after_call_cursor:
  assumes "0 \<le> cb_index cb" "cb_index cb < cb_size cb"
  shows "0 \<le> cb_index (after_call cb call) \<and> cb_index (after_call cb call) < cb_size cb"
  using assms
  by (cases call) (simp_all add: Append_def Append_legacy_def AppendSafe_parks Let_def)

lemma after_call_length: "length (cb_data (after_call cb call)) = length (cb_data cb)"
  by (cases call) (simp_all add: Append_def Append_legacy_def AppendSafe_parks Let_def)

lemma after_call_full:
  assumes "cb_full cb"
  shows "cb_full (after_call cb call)"
  using assms
  by (cases call) (simp_all add: Append_def Append_legacy_def AppendSafe_parks Let_def)

lemma after_call_consistent:
  assumes "consistent cb"
  shows "consistent (after_call cb call)"
  using assms after_call_cursor [of cb call] after_call_size [of cb call]
    after_call_length [of cb call]
  by (simp add: consistent_def)

lemma after_calls_consistent:
  "consistent cb \<Longrightarrow> consistent (foldl after_call cb calls)"
  by (induction calls arbitrary: cb) (simp_all add: after_call_consistent)

lemma after_calls_size: "cb_size (foldl after_call cb calls) = cb_size cb"
  by (induction calls arbitrary: cb) (simp_all add: after_call_size)

lemma after_calls_full:
  "cb_full cb \<Longrightarrow> cb_full (foldl after_call cb calls)"
  by (induction calls arbitrary: cb) (simp_all add: after_call_full)

lemma Value_consistent:
  assumes "consistent cb" "0 \<le> it_index it" "it_index it < cb_size cb"
  shows "Value cb it = Inr (cb_data cb ! nat (it_index it),
           \<lparr>it_index = (it_index it + 1) mod cb_size cb, it_count = it_count it - 1\<rparr>)"
proof (cases "it_index it + 1 \<ge> cb_size cb")
  case True
  with assms have "it_index it + 1 = cb_size cb" by simp
  then have "(it_index it + 1) mod cb_size cb = 0" by simp
  with assms True show ?thesis by (simp add: Value_def consistent_def Let_def)
next
  case False
  with assms have "(it_index it + 1) mod cb_size cb = it_index it + 1" by simp
  with assms False show ?thesis by (simp add: Value_def consistent_def Let_def)
qed

lemma New_consistent:
  assumes "1 \<le> c" "c \<le> int lim"
  shows "New lim c = Inr \<lparr>cb_data = replicate (nat c) None, cb_full = False, cb_size = c,
                      cb_index = 0, cb_mutex = False\<rparr>"
    and "consistent \<lparr>cb_data = replicate (nat c) None, cb_full = False, cb_size = c,
                      cb_index = 0, cb_mutex = False\<rparr>"
  using assms by (simp_all add: New_def consistent_def)

lemma New_returns_consistent:
  assumes "1 \<le> c" "New lim c = Inr cb"
  shows "consistent cb"
  using assms by (auto simp add: New_def consistent_def split: if_splits)

section \<open>The claims\<close>

text \<open>
  C1. For every capacity \<open>c \<ge> 1\<close> that \<^verbatim>\<open>make\<close> allocates (\<open>c\<close> at most the bound
  \<open>lim\<close> of the runtime) and every list \<open>ds\<close> of \<open>n\<close> values appended to a new buffer
  with nothing in between, every call returns and \<^verbatim>\<open>Get\<close> returns the \<open>n\<close> values in
  append order when \<open>n < c\<close>, and the last \<open>c\<close> values, oldest first (the values
  \<open>[n - c, n)\<close> of \<open>ds\<close>), when \<open>n \<ge> c\<close>.
\<close>

theorem Get_after_appends:
  assumes "1 \<le> c" "c \<le> int lim"
  shows "\<exists>cb. history lim c ds = Some cb \<and>
           Get cb = Inr (if int (length ds) < c then ds else drop (length ds - nat c) ds)"
proof -
  from history_state [OF assms, of ds] obtain cb where h: "history lim c ds = Some cb"
    and c: "consistent cb" and l: "logical cb = drop (length ds - nat c) ds"
    by blast
  have "int (length ds) < c \<Longrightarrow> length ds - nat c = 0" by linarith
  then have "drop (length ds - nat c) ds
             = (if int (length ds) < c then ds else drop (length ds - nat c) ds)"
    by simp
  with h l Get_logical [OF c] show ?thesis by simp
qed

text \<open>
  At capacity 3: after A, B, C, D the content is B, C, D; after E it is C, D, E; after
  A, B alone it is A, B.
\<close>

theorem Get_after_appends_witness:
  "(1::int) \<le> 3 \<and> (3::int) \<le> int (2 ^ 44) \<and>
   (\<exists>cb. history (2 ^ 44) 3 [Some ''A'', Some ''B'', Some ''C'', Some ''D''] = Some cb \<and>
      Get cb = Inr [Some ''B'', Some ''C'', Some ''D'']) \<and>
   (\<exists>cb. history (2 ^ 44) 3 [Some ''A'', Some ''B'', Some ''C'', Some ''D'', Some ''E''] = Some cb \<and>
      Get cb = Inr [Some ''C'', Some ''D'', Some ''E'']) \<and>
   (\<exists>cb. history (2 ^ 44) 3 [Some ''A'', Some ''B''] = Some cb \<and>
      Get cb = Inr [Some ''A'', Some ''B''])"
proof -
  have h: "(1::int) \<le> 3" by simp
  have b: "(3::int) \<le> int (2 ^ 44)" by simp
  show ?thesis
    using b Get_after_appends [OF h b, of "[Some ''A'', Some ''B'', Some ''C'', Some ''D'']"]
      Get_after_appends [OF h b, of "[Some ''A'', Some ''B'', Some ''C'', Some ''D'', Some ''E'']"]
      Get_after_appends [OF h b, of "[Some ''A'', Some ''B'']"]
    by simp
qed

text \<open>
  C2. In every state a buffer of capacity \<open>c \<ge> 1\<close> reaches from \<^verbatim>\<open>New(c)\<close> by calls of
  the public interface, the loop over a new iterator (\<^verbatim>\<open>Value()\<close> while \<^verbatim>\<open>Next()\<close>,
  no \<^verbatim>\<open>Append\<close> in between) runs to the end and collects the list that one call of
  \<^verbatim>\<open>Get\<close> returns, in the same order: the live entries, oldest first. After the
  appends of a list \<open>ds\<close> to a new buffer, both give the last \<open>c\<close> values of \<open>ds\<close> in
  append order (all of \<open>ds\<close> when it is shorter).
\<close>

theorem iterator_agrees_with_Get:
  assumes "1 \<le> c" "New lim c = Inr cb0" "cb = foldl after_call cb0 calls"
  shows "(\<exists>it'. Get cb = Inr (logical cb) \<and>
            drain cb (CreateIterator cb) [] = Inr (logical cb, it') \<and>
            \<not> Next it') \<and>
         (\<exists>cb' it'. history lim c ds = Some cb' \<and>
            Get cb' = Inr (drop (length ds - nat c) ds) \<and>
            drain cb' (CreateIterator cb') [] = Inr (drop (length ds - nat c) ds, it') \<and>
            \<not> Next it')"
proof -
  have "consistent cb0" by (rule New_returns_consistent [OF assms(1,2)])
  then have c: "consistent cb" unfolding assms(3) by (rule after_calls_consistent)
  from drain_logical [OF c] obtain it' where
    "drain cb (CreateIterator cb) [] = Inr (logical cb, it')" "it_count it' = 0"
    by blast
  with Get_logical [OF c] have a: "\<exists>it'. Get cb = Inr (logical cb) \<and>
      drain cb (CreateIterator cb) [] = Inr (logical cb, it') \<and> \<not> Next it'"
    by (auto simp add: Next_def)
  from New_returns_within [OF assms(2)] have w: "c \<le> int lim" by simp
  from history_state [OF assms(1) w, of ds] obtain cb' where h: "history lim c ds = Some cb'"
    and k: "consistent cb'" and l: "logical cb' = drop (length ds - nat c) ds"
    by blast
  from drain_logical [OF k] obtain it'' where
    "drain cb' (CreateIterator cb') [] = Inr (logical cb', it'')" "it_count it'' = 0"
    by blast
  with Get_logical [OF k] h l have "\<exists>cb' it'. history lim c ds = Some cb' \<and>
      Get cb' = Inr (drop (length ds - nat c) ds) \<and>
      drain cb' (CreateIterator cb') [] = Inr (drop (length ds - nat c) ds, it') \<and>
      \<not> Next it'"
    by (auto simp add: Next_def)
  with a show ?thesis by blast
qed

text \<open>
  At capacity 3 after A, B, a \<^verbatim>\<open>Get\<close>, C and D: both readers give B, C, D.
\<close>

theorem iterator_agrees_with_Get_witness:
  "(1::int) \<le> 3 \<and>
   New (2 ^ 44) 3 = Inr \<lparr>cb_data = [None :: string option, None, None], cb_full = False, cb_size = 3,
                cb_index = 0, cb_mutex = False\<rparr> \<and>
   foldl after_call \<lparr>cb_data = [None, None, None], cb_full = False, cb_size = 3,
                      cb_index = 0, cb_mutex = False\<rparr>
     [Call_Append (Some ''A''), Call_Append (Some ''B''), Call_Get, Call_Append (Some ''C''),
      Call_Append (Some ''D'')]
     = \<lparr>cb_data = [Some ''D'', Some ''B'', Some ''C''], cb_full = True, cb_size = 3,
        cb_index = 1, cb_mutex = False\<rparr> \<and>
   (\<exists>it'. Get \<lparr>cb_data = [Some ''D'', Some ''B'', Some ''C''], cb_full = True, cb_size = 3,
               cb_index = 1, cb_mutex = False\<rparr> = Inr [Some ''B'', Some ''C'', Some ''D''] \<and>
      drain \<lparr>cb_data = [Some ''D'', Some ''B'', Some ''C''], cb_full = True, cb_size = 3,
              cb_index = 1, cb_mutex = False\<rparr>
        (CreateIterator \<lparr>cb_data = [Some ''D'', Some ''B'', Some ''C''], cb_full = True,
           cb_size = 3, cb_index = 1, cb_mutex = False\<rparr>) []
        = Inr ([Some ''B'', Some ''C'', Some ''D''], it') \<and>
      \<not> Next it')"
proof -
  let ?n = "\<lparr>cb_data = [None :: string option, None, None], cb_full = False, cb_size = 3,
                cb_index = 0, cb_mutex = False\<rparr>"
  let ?cb = "\<lparr>cb_data = [Some ''D'', Some ''B'', Some ''C''], cb_full = True, cb_size = 3,
        cb_index = 1, cb_mutex = False\<rparr>"
  have h: "(1::int) \<le> 3" by simp
  have n: "New (2 ^ 44) 3 = Inr ?n" by (simp add: New_def numeral_3_eq_3)
  have r: "?cb = foldl after_call ?n
     [Call_Append (Some ''A''), Call_Append (Some ''B''), Call_Get, Call_Append (Some ''C''),
      Call_Append (Some ''D'')]"
    by (simp add: Append_def Let_def)
  have l: "logical ?cb = [Some ''B'', Some ''C'', Some ''D'']" by (simp add: logical_def)
  from iterator_agrees_with_Get [OF h n r, of "[]"] l
  have "\<exists>it'. Get ?cb = Inr [Some ''B'', Some ''C'', Some ''D''] \<and>
      drain ?cb (CreateIterator ?cb) [] = Inr ([Some ''B'', Some ''C'', Some ''D''], it') \<and>
      \<not> Next it'"
    by auto
  with h n r [symmetric] show ?thesis by simp
qed

text \<open>
  C3. On a buffer of capacity at least one whose write cursor \<open>i\<close> is inside its slots
  and whose mutex is free, \<^verbatim>\<open>Append(d)\<close> returns; it writes \<open>d\<close> into slot \<open>i\<close> and
  leaves every other slot as it was, moves the cursor to \<open>(i + 1) mod size\<close>, sets
  \<^verbatim>\<open>full\<close> when the cursor comes back to 0 and never clears it, and returns the new
  cursor. On a full buffer the oldest live entry is the one overwritten. The older
  \<^verbatim>\<open>Append\<close> has the same effect and no result.
\<close>

theorem Append_effect:
  assumes "consistent cb" "\<not> cb_mutex cb"
  shows "Append cb d
         = Returns ((cb_index cb + 1) mod cb_size cb)
             (cb\<lparr>cb_data := (cb_data cb)[nat (cb_index cb) := d],
                 cb_full := (cb_full cb \<or> (cb_index cb + 1) mod cb_size cb = 0),
                 cb_index := (cb_index cb + 1) mod cb_size cb\<rparr>) \<and>
         Append_legacy cb d
         = Returns ()
             (cb\<lparr>cb_data := (cb_data cb)[nat (cb_index cb) := d],
                 cb_full := (cb_full cb \<or> (cb_index cb + 1) mod cb_size cb = 0),
                 cb_index := (cb_index cb + 1) mod cb_size cb\<rparr>) \<and>
         consistent (state_of (Append cb d)) \<and>
         \<not> cb_mutex (state_of (Append cb d)) \<and>
         logical (state_of (Append cb d))
         = (if cb_full cb then tl (logical cb) @ [d] else logical cb @ [d])"
proof -
  let ?cb = "cb\<lparr>cb_data := (cb_data cb)[nat (cb_index cb) := d],
                 cb_full := (cb_full cb \<or> (cb_index cb + 1) mod cb_size cb = 0),
                 cb_index := (cb_index cb + 1) mod cb_size cb\<rparr>"
  have a: "Append cb d = Returns ((cb_index cb + 1) mod cb_size cb) ?cb"
    by (rule Append_consistent [OF assms])
  have b: "Append_legacy cb d = Returns () ?cb"
    by (rule Append_legacy_consistent [OF assms])
  have "consistent ?cb" by (rule consistent_Append [OF assms(1)])
  moreover have "\<not> cb_mutex ?cb" using assms(2) by simp
  moreover note logical_Append [OF assms(1), of d]
  ultimately show ?thesis using a b by simp
qed

text \<open>
  The append that wraps: capacity 3, cursor 2, not yet full.
\<close>

theorem Append_effect_witness:
  "consistent \<lparr>cb_data = [Some ''A'', Some ''B'', None], cb_full = False, cb_size = 3,
               cb_index = 2, cb_mutex = False\<rparr> \<and>
   Append \<lparr>cb_data = [Some ''A'', Some ''B'', None], cb_full = False, cb_size = 3,
            cb_index = 2, cb_mutex = False\<rparr> (Some ''C'')
     = Returns 0 \<lparr>cb_data = [Some ''A'', Some ''B'', Some ''C''], cb_full = True, cb_size = 3,
                   cb_index = 0, cb_mutex = False\<rparr> \<and>
   Append_legacy \<lparr>cb_data = [Some ''A'', Some ''B'', None], cb_full = False, cb_size = 3,
            cb_index = 2, cb_mutex = False\<rparr> (Some ''C'')
     = Returns () \<lparr>cb_data = [Some ''A'', Some ''B'', Some ''C''], cb_full = True, cb_size = 3,
                   cb_index = 0, cb_mutex = False\<rparr> \<and>
   logical (state_of (Append \<lparr>cb_data = [Some ''A'', Some ''B'', None], cb_full = False,
      cb_size = 3, cb_index = 2, cb_mutex = False\<rparr> (Some ''C'')))
     = [Some ''A'', Some ''B'', Some ''C'']"
proof -
  let ?cb = "\<lparr>cb_data = [Some ''A'', Some ''B'', None], cb_full = False, cb_size = 3,
               cb_index = 2, cb_mutex = False\<rparr>"
  have c: "consistent ?cb" by (simp add: consistent_def)
  have u: "\<not> cb_mutex ?cb" by simp
  have n: "nat 2 = Suc (Suc 0)" by simp
  show ?thesis using c Append_effect [OF c u, of "Some ''C''"]
    by (simp add: logical_def n)
qed

text \<open>
  C4. \<^verbatim>\<open>Append\<close> works under the mutex, \<^verbatim>\<open>Get\<close> does not take it. \<^verbatim>\<open>Get\<close> returns
  while the mutex is held, where \<^verbatim>\<open>Append\<close> waits. On the full buffer A, B of capacity
  2, a \<^verbatim>\<open>Get\<close> that has read its first slot when two appends (C, then D) run, and then
  reads its second slot, returns A, D: not the content before the appends (A, B), between
  them (B, C) or after them (C, D).
\<close>

theorem Get_torn_view:
  "history (2 ^ 44) 2 [Some ''A'', Some ''B'']
     = Some \<lparr>cb_data = [Some ''A'', Some ''B''], cb_full = True, cb_size = 2, cb_index = 0,
             cb_mutex = False\<rparr> \<and>
   Get \<lparr>cb_data = [Some ''A'', Some ''B''], cb_full = True, cb_size = 2, cb_index = 0,
         cb_mutex = False\<rparr> = Inr [Some ''A'', Some ''B''] \<and>
   Append \<lparr>cb_data = [Some ''A'', Some ''B''], cb_full = True, cb_size = 2, cb_index = 0,
            cb_mutex = False\<rparr> (Some ''C'')
     = Returns 1 \<lparr>cb_data = [Some ''C'', Some ''B''], cb_full = True, cb_size = 2,
                   cb_index = 1, cb_mutex = False\<rparr> \<and>
   Get \<lparr>cb_data = [Some ''C'', Some ''B''], cb_full = True, cb_size = 2, cb_index = 1,
         cb_mutex = False\<rparr> = Inr [Some ''B'', Some ''C''] \<and>
   Append \<lparr>cb_data = [Some ''C'', Some ''B''], cb_full = True, cb_size = 2, cb_index = 1,
            cb_mutex = False\<rparr> (Some ''D'')
     = Returns 0 \<lparr>cb_data = [Some ''C'', Some ''D''], cb_full = True, cb_size = 2,
                   cb_index = 0, cb_mutex = False\<rparr> \<and>
   Get \<lparr>cb_data = [Some ''C'', Some ''D''], cb_full = True, cb_size = 2, cb_index = 0,
         cb_mutex = False\<rparr> = Inr [Some ''C'', Some ''D''] \<and>
   Get_interleaved \<lparr>cb_data = [Some ''A'', Some ''B''], cb_full = True, cb_size = 2,
         cb_index = 0, cb_mutex = False\<rparr>
       [Reader_pass, Writer_Append (Some ''C''), Writer_Append (Some ''D''), Reader_pass]
     = Inr [Some ''A'', Some ''D''] \<and>
   Get \<lparr>cb_data = [Some ''A'', Some ''B''], cb_full = True, cb_size = 2, cb_index = 0,
         cb_mutex = True\<rparr> = Inr [Some ''A'', Some ''B''] \<and>
   Append \<lparr>cb_data = [Some ''A'', Some ''B''], cb_full = True, cb_size = 2, cb_index = 0,
            cb_mutex = True\<rparr> (Some ''C'')
     = Blocks \<lparr>cb_data = [Some ''A'', Some ''B''], cb_full = True, cb_size = 2, cb_index = 0,
                cb_mutex = True\<rparr>"
  by (simp add: history_def New_def Append_def Let_def numeral_2_eq_2 Get_def Get_start_def
      Get_loop.simps Get_body_def Get_interleaved_def)

text \<open>
  C5. \<^verbatim>\<open>AppendSafe\<close> never returns: on every buffer it ends parked in \<^verbatim>\<open>Lock()\<close> with
  the mutex held, by itself when the mutex was free. On a new buffer of capacity 1 the
  call blocks where \<^verbatim>\<open>Append\<close> returns 0.
\<close>

theorem AppendSafe_never_returns:
  "AppendSafe cb d = Blocks (cb\<lparr>cb_mutex := True\<rparr>) \<and>
   New (2 ^ 44) 1 = Inr \<lparr>cb_data = [None :: string option], cb_full = False, cb_size = 1,
                cb_index = 0, cb_mutex = False\<rparr> \<and>
   AppendSafe \<lparr>cb_data = [None], cb_full = False, cb_size = 1, cb_index = 0,
               cb_mutex = False\<rparr> (Some ''x'')
     = Blocks \<lparr>cb_data = [None], cb_full = False, cb_size = 1, cb_index = 0,
               cb_mutex = True\<rparr> \<and>
   Append \<lparr>cb_data = [None], cb_full = False, cb_size = 1, cb_index = 0,
           cb_mutex = False\<rparr> (Some ''x'')
     = Returns 0 \<lparr>cb_data = [Some ''x''], cb_full = True, cb_size = 1, cb_index = 0,
                  cb_mutex = False\<rparr>"
  by (simp add: AppendSafe_def Append_def New_def)

text \<open>
  C6, as the claim states it, fails at capacity 0: \<^verbatim>\<open>New(0)\<close> returns a buffer and no
  error.
\<close>

theorem New_zero_counterexample:
  "New (2 ^ 44) 0 = Inr \<lparr>cb_data = ([] :: string option list), cb_full = False, cb_size = 0,
                cb_index = 0, cb_mutex = False\<rparr>"
  by (simp add: New_def)

text \<open>
  C6, amended. \<^verbatim>\<open>New\<close> checks nothing and has no error result. For a capacity \<open>c\<close>
  from 1 up to the length the runtime allocates it returns a buffer of \<open>c\<close> unset slots
  with the write cursor at 0 and \<^verbatim>\<open>full\<close> false. For capacity 0 it returns, with no
  error, a buffer without slots: it is empty, \<^verbatim>\<open>Get\<close> returns the empty list, and every
  \<^verbatim>\<open>Append\<close> on it panics on the index. For a negative capacity, and for one above the
  length the runtime allocates, it returns nothing: \<^verbatim>\<open>make\<close> panics.
\<close>

theorem New_by_capacity:
  "(1 \<le> c \<and> c \<le> int lim \<longrightarrow>
      (\<exists>cb :: 'a CyclicBuffer. New lim c = Inr cb \<and> int (length (cb_data cb)) = c \<and>
         (\<forall>v \<in> set (cb_data cb). v = None) \<and> cb_size cb = c \<and> cb_index cb = 0 \<and>
         \<not> cb_full cb \<and> \<not> cb_mutex cb \<and> consistent cb \<and> Empty cb)) \<and>
   (c = 0 \<longrightarrow>
      (\<exists>cb :: 'a CyclicBuffer. New lim c = Inr cb \<and> cb_data cb = [] \<and> cb_size cb = 0 \<and>
         cb_index cb = 0 \<and> \<not> cb_full cb \<and> \<not> cb_mutex cb \<and> Empty cb \<and> Get cb = Inr [] \<and>
         (\<forall>d. Append cb d = Panics IndexOutOfRange cb))) \<and>
   (c < 0 \<or> int lim < c \<longrightarrow>
      (New lim c :: panic + 'a CyclicBuffer) = Inl MakeSliceLenOutOfRange)"
proof -
  have p: "1 \<le> c \<and> c \<le> int lim \<longrightarrow>
      (\<exists>cb :: 'a CyclicBuffer. New lim c = Inr cb \<and> int (length (cb_data cb)) = c \<and>
         (\<forall>v \<in> set (cb_data cb). v = None) \<and> cb_size cb = c \<and> cb_index cb = 0 \<and>
         \<not> cb_full cb \<and> \<not> cb_mutex cb \<and> consistent cb \<and> Empty cb)"
    by (simp add: New_def consistent_def Empty_def NotEmpty_def)
  have z: "c = 0 \<longrightarrow>
      (\<exists>cb :: 'a CyclicBuffer. New lim c = Inr cb \<and> cb_data cb = [] \<and> cb_size cb = 0 \<and>
         cb_index cb = 0 \<and> \<not> cb_full cb \<and> \<not> cb_mutex cb \<and> Empty cb \<and> Get cb = Inr [] \<and>
         (\<forall>d. Append cb d = Panics IndexOutOfRange cb))"
    by (simp add: New_def Empty_def NotEmpty_def Get_def Get_start_def Get_loop.simps Append_def)
  have n: "c < 0 \<or> int lim < c \<longrightarrow>
      (New lim c :: panic + 'a CyclicBuffer) = Inl MakeSliceLenOutOfRange"
    by (simp add: New_def)
  show ?thesis using p z n by blast
qed

text \<open>
  With the bound of amd64, \<open>2 ^ 44\<close>: the cases at capacities 2, 0, -1, \<open>2 ^ 44 + 1\<close>
  and \<open>2 ^ 60\<close>.
\<close>

theorem New_by_capacity_witness:
  "(\<exists>cb :: string CyclicBuffer. New (2 ^ 44) 2 = Inr cb \<and> cb_data cb = [None, None] \<and>
      cb_size cb = 2 \<and> cb_index cb = 0 \<and> \<not> cb_full cb \<and> consistent cb) \<and>
   (\<exists>cb :: string CyclicBuffer. New (2 ^ 44) 0 = Inr cb \<and> cb_data cb = [] \<and>
      Get cb = Inr [] \<and> Append cb (Some ''A'') = Panics IndexOutOfRange cb) \<and>
   (New (2 ^ 44) (- 1) :: panic + string CyclicBuffer) = Inl MakeSliceLenOutOfRange \<and>
   (New (2 ^ 44) (2 ^ 44 + 1) :: panic + string CyclicBuffer) = Inl MakeSliceLenOutOfRange \<and>
   (New (2 ^ 44) (2 ^ 60) :: panic + string CyclicBuffer) = Inl MakeSliceLenOutOfRange"
proof -
  note a = New_by_capacity [of 2 "2 ^ 44", where ?'a = string]
  note b = New_by_capacity [of 0 "2 ^ 44", where ?'a = string]
  note c = New_by_capacity [of "- 1" "2 ^ 44", where ?'a = string]
  note d = New_by_capacity [of "2 ^ 44 + 1" "2 ^ 44", where ?'a = string]
  note e = New_by_capacity [of "2 ^ 60" "2 ^ 44", where ?'a = string]
  have "\<exists>cb :: string CyclicBuffer. New (2 ^ 44) 2 = Inr cb \<and> cb_data cb = [None, None] \<and>
          cb_size cb = 2 \<and> cb_index cb = 0 \<and> \<not> cb_full cb \<and> consistent cb"
  proof -
    have "(1::int) \<le> 2 \<and> (2::int) \<le> int (2 ^ 44)" by simp
    with a obtain cb :: "string CyclicBuffer" where n: "New (2 ^ 44) 2 = Inr cb"
      and r: "cb_size cb = 2" "cb_index cb = 0" "\<not> cb_full cb" "consistent cb"
      by blast
    from n have "cb_data cb = [None, None]"
      by (auto simp add: New_def numeral_2_eq_2 split: if_splits)
    with n r show ?thesis by blast
  qed
  moreover from b have "\<exists>cb :: string CyclicBuffer. New (2 ^ 44) 0 = Inr cb \<and>
      cb_data cb = [] \<and> Get cb = Inr [] \<and> Append cb (Some ''A'') = Panics IndexOutOfRange cb"
    by auto
  moreover from c have "(New (2 ^ 44) (- 1) :: panic + string CyclicBuffer)
      = Inl MakeSliceLenOutOfRange"
    by simp
  moreover from d have "(New (2 ^ 44) (2 ^ 44 + 1) :: panic + string CyclicBuffer)
      = Inl MakeSliceLenOutOfRange"
    by simp
  moreover from e have "(New (2 ^ 44) (2 ^ 60) :: panic + string CyclicBuffer)
      = Inl MakeSliceLenOutOfRange"
    by simp
  ultimately show ?thesis by blast
qed

text \<open>
  C7, as the claim states it, fails on the full buffer A, B of capacity 2: the loop over
  its iterator ends with \<^verbatim>\<open>count = 0\<close>, and one more \<^verbatim>\<open>Value()\<close> returns A again, with
  no panic, and leaves \<^verbatim>\<open>count = -1\<close>.
\<close>

theorem Value_past_end_counterexample:
  "history (2 ^ 44) 2 [Some ''A'', Some ''B'']
     = Some \<lparr>cb_data = [Some ''A'', Some ''B''], cb_full = True, cb_size = 2, cb_index = 0,
             cb_mutex = False\<rparr> \<and>
   drain \<lparr>cb_data = [Some ''A'', Some ''B''], cb_full = True, cb_size = 2, cb_index = 0,
           cb_mutex = False\<rparr>
     (CreateIterator \<lparr>cb_data = [Some ''A'', Some ''B''], cb_full = True, cb_size = 2,
        cb_index = 0, cb_mutex = False\<rparr>) []
     = Inr ([Some ''A'', Some ''B''], \<lparr>it_index = 0, it_count = 0\<rparr>) \<and>
   Next \<lparr>it_index = 0, it_count = 0\<rparr> = False \<and>
   Value \<lparr>cb_data = [Some ''A'', Some ''B''], cb_full = True, cb_size = 2, cb_index = 0,
           cb_mutex = False\<rparr> \<lparr>it_index = 0, it_count = 0\<rparr>
     = Inr (Some ''A'', \<lparr>it_index = 1, it_count = - 1\<rparr>)"
  by (simp add: history_def New_def Append_def Let_def numeral_2_eq_2 drain.simps
      CreateIterator_def Next_def Value_def)

text \<open>
  C7, amended. \<^verbatim>\<open>Value()\<close> never reads \<^verbatim>\<open>count\<close>. On an exhausted iterator
  (\<^verbatim>\<open>count = 0\<close>) whose read cursor is inside a buffer of capacity at least one, it
  does not fail: it returns what the slot under the cursor holds, moves the cursor on by
  one modulo the capacity and leaves \<^verbatim>\<open>count = -1\<close>, so \<^verbatim>\<open>Next()\<close> stays false.
\<close>

theorem Value_ignores_count:
  assumes "consistent cb" "0 \<le> it_index it" "it_index it < cb_size cb" "it_count it = 0"
  shows "\<not> Next it \<and>
         Value cb it
         = Inr (cb_data cb ! nat (it_index it),
                \<lparr>it_index = (it_index it + 1) mod cb_size cb, it_count = - 1\<rparr>) \<and>
         \<not> Next \<lparr>it_index = (it_index it + 1) mod cb_size cb, it_count = - 1\<rparr>"
  using Value_consistent [OF assms(1,2,3)] assms(4) by (simp add: Next_def)

text \<open>
  At capacity 2 after one append: the exhausted iterator returns the unset slot 1.
\<close>

theorem Value_ignores_count_witness:
  "consistent \<lparr>cb_data = [Some ''A'', None], cb_full = False, cb_size = 2, cb_index = 1,
               cb_mutex = False\<rparr> \<and>
   history (2 ^ 44) 2 [Some ''A'']
     = Some \<lparr>cb_data = [Some ''A'', None], cb_full = False, cb_size = 2, cb_index = 1,
             cb_mutex = False\<rparr> \<and>
   drain \<lparr>cb_data = [Some ''A'', None], cb_full = False, cb_size = 2, cb_index = 1,
           cb_mutex = False\<rparr>
     (CreateIterator \<lparr>cb_data = [Some ''A'', None], cb_full = False, cb_size = 2,
        cb_index = 1, cb_mutex = False\<rparr>) []
     = Inr ([Some ''A''], \<lparr>it_index = 1, it_count = 0\<rparr>) \<and>
   Value \<lparr>cb_data = [Some ''A'', None], cb_full = False, cb_size = 2, cb_index = 1,
           cb_mutex = False\<rparr> \<lparr>it_index = 1, it_count = 0\<rparr>
     = Inr (None, \<lparr>it_index = 0, it_count = - 1\<rparr>)"
proof -
  let ?cb = "\<lparr>cb_data = [Some ''A'', None], cb_full = False, cb_size = 2, cb_index = 1,
               cb_mutex = False\<rparr>"
  let ?it = "\<lparr>it_index = 1, it_count = 0\<rparr>"
  have c: "consistent ?cb" by (simp add: consistent_def)
  have i: "0 \<le> it_index ?it" "it_index ?it < cb_size ?cb" "it_count ?it = 0" by simp_all
  have h: "history (2 ^ 44) 2 [Some ''A''] = Some ?cb"
    by (simp add: history_def New_def Append_def Let_def numeral_2_eq_2)
  have d: "drain ?cb (CreateIterator ?cb) [] = Inr ([Some ''A''], ?it)"
    by (simp add: drain.simps CreateIterator_def Next_def Value_def)
  show ?thesis using c h d Value_ignores_count [OF c i] by simp
qed

text \<open>
  C8. \<^verbatim>\<open>New(c)\<close> returns a buffer for every capacity \<open>c \<ge> 1\<close> that \<^verbatim>\<open>make\<close> allocates
  (\<open>c\<close> at most the bound \<open>lim\<close> of the runtime); it has \<open>0 \<le> index < size = c\<close>, and so has
  every buffer reached from it by calls of the public interface (\<^verbatim>\<open>Append\<close>,
  \<^verbatim>\<open>AppendSafe\<close>, \<^verbatim>\<open>Get\<close>, \<^verbatim>\<open>CreateIterator\<close>, \<^verbatim>\<open>Empty\<close>, \<^verbatim>\<open>NotEmpty\<close>,
  \<^verbatim>\<open>GetData\<close>), whatever their outcome. In each of these states a new iterator has its
  read cursor in \<open>[0, c)\<close>, and \<^verbatim>\<open>Value()\<close> on an iterator whose cursor is in \<open>[0, c)\<close>
  returns and leaves the cursor in \<open>[0, c)\<close>.
\<close>

theorem cursor_stays_in_range:
  assumes "1 \<le> c" "c \<le> int lim"
  shows "\<exists>cb0 :: 'a CyclicBuffer. New lim c = Inr cb0 \<and> 0 \<le> cb_index cb0 \<and> cb_index cb0 < cb_size cb0 \<and>
           cb_size cb0 = c \<and>
           (\<forall>calls. 0 \<le> cb_index (foldl after_call cb0 calls) \<and>
                    cb_index (foldl after_call cb0 calls) < cb_size (foldl after_call cb0 calls) \<and>
                    cb_size (foldl after_call cb0 calls) = c \<and>
                    0 \<le> it_index (CreateIterator (foldl after_call cb0 calls)) \<and>
                    it_index (CreateIterator (foldl after_call cb0 calls)) < c \<and>
                    (\<forall>it. 0 \<le> it_index it \<and> it_index it < c \<longrightarrow>
                       (\<exists>v it'. Value (foldl after_call cb0 calls) it = Inr (v, it') \<and>
                          0 \<le> it_index it' \<and> it_index it' < c)))"
proof -
  let ?cb0 = "\<lparr>cb_data = replicate (nat c) None, cb_full = False, cb_size = c,
                cb_index = 0, cb_mutex = False\<rparr> :: 'a CyclicBuffer"
  note n = New_consistent [OF assms]
  have a: "0 \<le> cb_index (foldl after_call ?cb0 calls) \<and>
           cb_index (foldl after_call ?cb0 calls) < cb_size (foldl after_call ?cb0 calls) \<and>
           cb_size (foldl after_call ?cb0 calls) = c \<and>
           0 \<le> it_index (CreateIterator (foldl after_call ?cb0 calls)) \<and>
           it_index (CreateIterator (foldl after_call ?cb0 calls)) < c \<and>
           (\<forall>it. 0 \<le> it_index it \<and> it_index it < c \<longrightarrow>
              (\<exists>v it'. Value (foldl after_call ?cb0 calls) it = Inr (v, it') \<and>
                 0 \<le> it_index it' \<and> it_index it' < c))" for calls
  proof -
    let ?cb = "foldl after_call ?cb0 calls"
    have k: "consistent ?cb" by (rule after_calls_consistent [OF n(2)])
    have s: "cb_size ?cb = c" by (simp add: after_calls_size)
    from k s have r: "0 \<le> cb_index ?cb" "cb_index ?cb < c" by (simp_all add: consistent_def)
    have i: "0 \<le> it_index (CreateIterator ?cb) \<and> it_index (CreateIterator ?cb) < c"
      using r assms by (simp add: CreateIterator_def)
    have v: "\<exists>v it'. Value ?cb it = Inr (v, it') \<and> 0 \<le> it_index it' \<and> it_index it' < c"
      if "0 \<le> it_index it \<and> it_index it < c" for it
      using Value_consistent [OF k, of it] that s assms by simp
    show ?thesis using r s i v by simp
  qed
  have "New lim c = Inr ?cb0" by (rule n(1))
  moreover have "0 \<le> cb_index ?cb0 \<and> cb_index ?cb0 < cb_size ?cb0 \<and> cb_size ?cb0 = c"
    using assms by simp
  ultimately show ?thesis using a by blast
qed

text \<open>
  At capacity 2, after a sequence of calls with an \<^verbatim>\<open>AppendSafe\<close> among them.
\<close>

theorem cursor_stays_in_range_witness:
  "(1::int) \<le> 2 \<and> (2::int) \<le> int (2 ^ 44) \<and>
   (\<exists>cb0 :: string CyclicBuffer. New (2 ^ 44) 2 = Inr cb0 \<and>
      0 \<le> cb_index (foldl after_call cb0
             [Call_Append (Some ''A''), Call_Get, Call_Append (Some ''B''),
              Call_AppendSafe (Some ''C''), Call_Append (Some ''D'')]) \<and>
      cb_index (foldl after_call cb0
             [Call_Append (Some ''A''), Call_Get, Call_Append (Some ''B''),
              Call_AppendSafe (Some ''C''), Call_Append (Some ''D'')]) < 2 \<and>
      (\<exists>v it'. Value (foldl after_call cb0
             [Call_Append (Some ''A''), Call_Get, Call_Append (Some ''B''),
              Call_AppendSafe (Some ''C''), Call_Append (Some ''D'')])
             \<lparr>it_index = 1, it_count = 1\<rparr> = Inr (v, it') \<and>
         0 \<le> it_index it' \<and> it_index it' < 2))"
proof -
  have h: "(1::int) \<le> 2" by simp
  have b: "(2::int) \<le> int (2 ^ 44)" by simp
  let ?calls = "[Call_Append (Some ''A''), Call_Get, Call_Append (Some ''B''),
              Call_AppendSafe (Some ''C''), Call_Append (Some ''D'')]"
  let ?it = "\<lparr>it_index = 1, it_count = 1\<rparr>"
  from cursor_stays_in_range [OF h b] obtain cb0 :: "string CyclicBuffer"
    where n: "New (2 ^ 44) 2 = Inr cb0"
      and a: "\<And>calls. 0 \<le> cb_index (foldl after_call cb0 calls) \<and>
                    cb_index (foldl after_call cb0 calls) < cb_size (foldl after_call cb0 calls) \<and>
                    cb_size (foldl after_call cb0 calls) = 2 \<and>
                    0 \<le> it_index (CreateIterator (foldl after_call cb0 calls)) \<and>
                    it_index (CreateIterator (foldl after_call cb0 calls)) < 2 \<and>
                    (\<forall>it. 0 \<le> it_index it \<and> it_index it < 2 \<longrightarrow>
                       (\<exists>v it'. Value (foldl after_call cb0 calls) it = Inr (v, it') \<and>
                          0 \<le> it_index it' \<and> it_index it' < 2))"
    by blast
  have i: "0 \<le> it_index ?it \<and> it_index ?it < 2" by simp
  from a [of ?calls] have r: "0 \<le> cb_index (foldl after_call cb0 ?calls)"
    "cb_index (foldl after_call cb0 ?calls) < 2"
    and v: "\<forall>it. 0 \<le> it_index it \<and> it_index it < 2 \<longrightarrow>
              (\<exists>v it'. Value (foldl after_call cb0 ?calls) it = Inr (v, it') \<and>
                 0 \<le> it_index it' \<and> it_index it' < 2)"
    by simp_all
  from v i have "\<exists>v it'. Value (foldl after_call cb0 ?calls) ?it = Inr (v, it') \<and>
                 0 \<le> it_index it' \<and> it_index it' < 2"
    by blast
  with h b n r show ?thesis by blast
qed

text \<open>
  C9. In every state a buffer of capacity \<open>c \<ge> 1\<close> reaches from \<^verbatim>\<open>New(c)\<close> by calls of
  the public interface, \<^verbatim>\<open>Empty()\<close> is true exactly when \<^verbatim>\<open>full\<close> is false and the
  write cursor is 0, that is when the logical count (\<^verbatim>\<open>size\<close> when full, the cursor
  otherwise) is 0, and \<^verbatim>\<open>NotEmpty()\<close> is its negation. After the appends of a list
  \<open>ds\<close> to a new buffer, \<^verbatim>\<open>Empty()\<close> holds exactly when \<open>ds\<close> is empty.
\<close>

theorem Empty_iff:
  assumes "1 \<le> c" "New lim c = Inr cb0" "cb = foldl after_call cb0 calls"
  shows "Empty cb = (\<not> cb_full cb \<and> cb_index cb = 0) \<and>
         Empty cb = ((if cb_full cb then cb_size cb else cb_index cb) = 0) \<and>
         NotEmpty cb = (\<not> Empty cb) \<and>
         (\<exists>cb'. history lim c ds = Some cb' \<and> Empty cb' = (length ds = 0))"
proof -
  have "consistent cb0" by (rule New_returns_consistent [OF assms(1,2)])
  then have "consistent cb" unfolding assms(3) by (rule after_calls_consistent)
  then have p: "0 \<le> cb_index cb" "1 \<le> cb_size cb" by (simp_all add: consistent_def)
  have e: "Empty cb = (\<not> cb_full cb \<and> cb_index cb = 0)"
    using p by (auto simp add: Empty_def NotEmpty_def)
  from New_returns_within [OF assms(2)] have w: "c \<le> int lim" by simp
  from history_state [OF assms(1) w, of ds] obtain cb' where h: "history lim c ds = Some cb'"
    and k: "consistent cb'" and i: "cb_index cb' = int (length ds) mod c"
    and f: "cb_full cb' = (c \<le> int (length ds))"
    by blast
  have z: "(\<not> cb_full cb' \<and> cb_index cb' = 0) = (length ds = 0)"
  proof (cases "c \<le> int (length ds)")
    case True
    with assms(1) f show ?thesis by auto
  next
    case False
    then have "int (length ds) mod c = int (length ds)" by simp
    with False f i show ?thesis by simp
  qed
  from k have "0 \<le> cb_index cb'" by (simp add: consistent_def)
  then have "Empty cb' = (\<not> cb_full cb' \<and> cb_index cb' = 0)"
    by (auto simp add: Empty_def NotEmpty_def)
  with z h have "\<exists>cb'. history lim c ds = Some cb' \<and> Empty cb' = (length ds = 0)" by simp
  then show ?thesis using e p by (auto simp add: Empty_def)
qed

text \<open>
  At capacity 2: empty when new, not empty after one append or two.
\<close>

theorem Empty_iff_witness:
  "(1::int) \<le> 2 \<and>
   New (2 ^ 44) 2 = Inr \<lparr>cb_data = [None :: string option, None], cb_full = False, cb_size = 2,
                cb_index = 0, cb_mutex = False\<rparr> \<and>
   Empty (foldl after_call \<lparr>cb_data = [None :: string option, None], cb_full = False,
            cb_size = 2, cb_index = 0, cb_mutex = False\<rparr> [Call_Get, Call_Empty]) \<and>
   NotEmpty (foldl after_call \<lparr>cb_data = [None, None], cb_full = False,
            cb_size = 2, cb_index = 0, cb_mutex = False\<rparr>
            [Call_Append (Some ''A''), Call_Append (Some ''B'')]) \<and>
   (\<exists>cb'. history (2 ^ 44) 2 [Some ''A''] = Some cb' \<and> \<not> Empty cb')"
proof -
  let ?n = "\<lparr>cb_data = [None :: string option, None], cb_full = False, cb_size = 2,
                cb_index = 0, cb_mutex = False\<rparr>"
  have h: "(1::int) \<le> 2" by simp
  have n: "New (2 ^ 44) 2 = Inr ?n" by (simp add: New_def numeral_2_eq_2)
  note a = Empty_iff [OF h n refl, of "[Call_Get, Call_Empty]" "[Some ''A'']"]
  note b = Empty_iff [OF h n refl, of "[Call_Append (Some ''A''), Call_Append (Some ''B'')]"
      "[Some ''A'']"]
  have "Empty (foldl after_call ?n [Call_Get, Call_Empty])"
    using a by simp
  moreover have "NotEmpty (foldl after_call ?n [Call_Append (Some ''A''), Call_Append (Some ''B'')])"
    using b by (simp add: Append_def Let_def)
  moreover have "\<exists>cb'. history (2 ^ 44) 2 [Some ''A''] = Some cb' \<and> \<not> Empty cb'"
    using a by simp
  ultimately show ?thesis using h n by blast
qed

text \<open>
  C10. \<^verbatim>\<open>full\<close> is false in the buffer \<^verbatim>\<open>New\<close> returns; a call of the public interface
  on a buffer with \<^verbatim>\<open>full\<close> set leaves it set, and so does any sequence of calls; a
  call other than \<^verbatim>\<open>Append\<close> leaves \<^verbatim>\<open>full\<close> as it was; and after the appends of
  \<open>ds\<close> to a new buffer of capacity \<open>c \<ge> 1\<close>, \<^verbatim>\<open>full\<close> is set exactly when \<open>ds\<close> has
  at least \<open>c\<close> values.
\<close>

theorem full_is_monotone:
  "(\<forall>cb0 :: 'a CyclicBuffer. New lim c = Inr cb0 \<longrightarrow> \<not> cb_full cb0) \<and>
   (cb_full cb \<longrightarrow> cb_full (after_call cb call) \<and> cb_full (foldl after_call cb calls)) \<and>
   ((\<forall>d. call \<noteq> Call_Append d \<and> call \<noteq> Call_Append_legacy d) \<longrightarrow>
      cb_full (after_call cb call) = cb_full cb) \<and>
   (1 \<le> c \<and> history lim c ds = Some cb1 \<longrightarrow> cb_full cb1 = (c \<le> int (length ds)))"
proof -
  have a: "\<forall>cb0 :: 'a CyclicBuffer. New lim c = Inr cb0 \<longrightarrow> \<not> cb_full cb0"
    by (auto simp add: New_def split: if_splits)
  have b: "cb_full cb \<longrightarrow> cb_full (after_call cb call) \<and> cb_full (foldl after_call cb calls)"
    by (simp add: after_call_full after_calls_full)
  have c: "(\<forall>d. call \<noteq> Call_Append d \<and> call \<noteq> Call_Append_legacy d) \<longrightarrow>
      cb_full (after_call cb call) = cb_full cb"
    by (cases call) (simp_all add: AppendSafe_parks)
  have d: "1 \<le> c \<and> history lim c ds = Some cb1 \<longrightarrow> cb_full cb1 = (c \<le> int (length ds))"
  proof
    assume p: "1 \<le> c \<and> history lim c ds = Some cb1"
    then have "1 \<le> c" by simp
    moreover from p history_within [of lim c ds cb1] have "c \<le> int lim" by simp
    ultimately show "cb_full cb1 = (c \<le> int (length ds))"
      using history_state [of c lim ds] p by auto
  qed
  show ?thesis using a b c d by blast
qed

text \<open>
  At capacity 2: the full buffer A, B stays full, and \<^verbatim>\<open>AppendSafe\<close> on a new buffer
  leaves \<^verbatim>\<open>full\<close> false.
\<close>

theorem full_is_monotone_witness:
  "New (2 ^ 44) 2 = Inr \<lparr>cb_data = [None :: string option, None], cb_full = False, cb_size = 2,
                cb_index = 0, cb_mutex = False\<rparr> \<and>
   history (2 ^ 44) 2 [Some ''A'', Some ''B'']
     = Some \<lparr>cb_data = [Some ''A'', Some ''B''], cb_full = True, cb_size = 2, cb_index = 0,
             cb_mutex = False\<rparr> \<and>
   cb_full (after_call \<lparr>cb_data = [Some ''A'', Some ''B''], cb_full = True, cb_size = 2,
                       cb_index = 0, cb_mutex = False\<rparr> (Call_Append (Some ''C''))) \<and>
   cb_full (foldl after_call \<lparr>cb_data = [Some ''A'', Some ''B''], cb_full = True, cb_size = 2,
                       cb_index = 0, cb_mutex = False\<rparr>
             [Call_Append (Some ''C''), Call_Get, Call_AppendSafe (Some ''D''),
              Call_Append (Some ''E'')]) \<and>
   cb_full (after_call \<lparr>cb_data = [None :: string option, None], cb_full = False, cb_size = 2,
                cb_index = 0, cb_mutex = False\<rparr> (Call_AppendSafe (Some ''A''))) = False"
proof -
  let ?n = "\<lparr>cb_data = [None :: string option, None], cb_full = False, cb_size = 2,
                cb_index = 0, cb_mutex = False\<rparr>"
  let ?f = "\<lparr>cb_data = [Some ''A'', Some ''B''], cb_full = True, cb_size = 2, cb_index = 0,
             cb_mutex = False\<rparr>"
  have n: "New (2 ^ 44) 2 = Inr ?n" by (simp add: New_def numeral_2_eq_2)
  have r: "history (2 ^ 44) 2 [Some ''A'', Some ''B''] = Some ?f"
    by (simp add: history_def New_def Append_def Let_def numeral_2_eq_2)
  have f: "cb_full ?f" by simp
  have s: "\<forall>d. Call_AppendSafe (Some ''A'') \<noteq> Call_Append d \<and>
               Call_AppendSafe (Some ''A'') \<noteq> Call_Append_legacy d"
    by simp
  note m1 = full_is_monotone [of "2 ^ 44" 2 ?f "Call_Append (Some ''C'')"
      "[Call_Append (Some ''C''), Call_Get, Call_AppendSafe (Some ''D''), Call_Append (Some ''E'')]"
      "[Some ''A'', Some ''B'']" ?f]
  note m2 = full_is_monotone [of "2 ^ 44" 2 ?n "Call_AppendSafe (Some ''A'')" "[]" "[]" ?n]
  from m1 f have "cb_full (after_call ?f (Call_Append (Some ''C'')))"
    and "cb_full (foldl after_call ?f
             [Call_Append (Some ''C''), Call_Get, Call_AppendSafe (Some ''D''),
              Call_Append (Some ''E'')])"
    by blast+
  moreover from m2 s have "cb_full (after_call ?n (Call_AppendSafe (Some ''A''))) = cb_full ?n"
    by blast
  ultimately show ?thesis using n r by simp
qed

end
